theory Spec2Isabelle
  imports Main "HOL-Library.Word"
begin

unbundle bit_operations_syntax

section \<open>Data model\<close>

text \<open>
  The code works on C \<open>uint32\<close> values (code points packed as their UTF-8 bytes) and on
  \<open>unsigned char\<close> bytes. An \<open>int32\<close> array element is read back through a \<open>uint32\<close>
  variable everywhere, so an array is a list of 32-bit words (the bit pattern).
\<close>

type_synonym uint32 = "32 word"
type_synonym uint8 = "8 word"

text \<open>
  One row of the conversion table, \<open>pg_utf_decomposition\<close> of \<open>utf8_table.h\<close>: the key
  \<open>utf\<close>, the combining class (field \<open>class\<close> in C, a keyword here) and the fixed-size
  array \<open>codes\<close> of decomposition codes, padded with zeros. The header is not part of
  the sources, so the table \<open>SASLPrepConv\<close> and the length of \<open>codes\<close> are parameters
  of the model: a table is any list of rows, \<open>codes\<close> any list.
\<close>

record pg_utf_decomposition =
  utf :: uint32
  class' :: uint8
  codes :: "uint32 list"

type_synonym conv_table = "pg_utf_decomposition list"

text \<open>
  The ways a call can end without a result.
  \<^item> \<open>NoTableEntry\<close>: \<open>bsearch\<close> returned \<open>NULL\<close> in \<open>get_code_entry\<close>; the
    \<open>Assert(entry != NULL)\<close> fails, or without assertions the caller dereferences
    \<open>NULL\<close>. Either way the server process dies.
  \<^item> \<open>RecursionTooDeep\<close>: the recursion of \<open>get_decomposed_size\<close> or
    \<open>decompose_code\<close> is deeper than the given bound (the C stack).
  \<^item> \<open>BufferOverrun\<close>: a write or read outside the allocated array.
  \<^item> \<open>NotUtf8Encoding\<close>: \<open>ereport(ERROR, "Database encoding is not UTF-8")\<close>.
  \<^item> \<open>IncorrectUtf8\<close>: \<open>elog(ERROR, "incorrect utf-8 input")\<close>.
  \<^item> \<open>IncorrectMblen\<close>: \<open>elog(ERROR, "incorrect multibyte length %d")\<close>.
  \<^item> \<open>AssertFailed\<close>: one of the \<open>Assert(count == ...)\<close> at the end of the two
    codec functions fails.
  \<^item> \<open>InvalidAllocSize\<close>: \<open>palloc0\<close> refuses the byte count it is given
    (\<open>elog(ERROR, "invalid memory alloc request size")\<close>).
  \<^item> \<open>SizeOverflow\<close>: the sum of the decomposed sizes does not fit the \<open>int size\<close>
    of \<open>pg_sasl_prepare\<close>; the signed addition overflows, which C leaves undefined.
\<close>

datatype error =
    NoTableEntry
  | RecursionTooDeep
  | BufferOverrun
  | NotUtf8Encoding
  | IncorrectUtf8
  | IncorrectMblen
  | AssertFailed
  | InvalidAllocSize
  | SizeOverflow

section \<open>Table lookup\<close>

definition conv_compare :: "uint32 \<Rightarrow> pg_utf_decomposition \<Rightarrow> int" where
  "conv_compare v1 p2 =
     (let v2 = utf p2 in if v1 > v2 then 1 else if v1 = v2 then 0 else - 1)"

text \<open>
  The C library's \<open>bsearch\<close> over the rows \<open>base[l..u)\<close>, with \<open>conv_compare\<close> as
  its comparison: the usual halving search, \<open>None\<close> for \<open>NULL\<close>.
\<close>

function bsearch :: "uint32 \<Rightarrow> conv_table \<Rightarrow> nat \<Rightarrow> nat \<Rightarrow> pg_utf_decomposition option" where
  "bsearch key base l u =
     (if l < u then
        (let idx = (l + u) div 2; p = base ! idx; comparison = conv_compare key p in
          if comparison < 0 then bsearch key base l idx
          else if comparison > 0 then bsearch key base (idx + 1) u
          else Some p)
      else None)"
  by pat_completeness auto
termination
  by (relation "measure (\<lambda>(key, base, l, u). u - l)") auto

declare bsearch.simps [simp del]

definition get_code_entry :: "conv_table \<Rightarrow> uint32 \<Rightarrow> error + pg_utf_decomposition" where
  "get_code_entry SASLPrepConv code =
     (case bsearch code SASLPrepConv 0 (length SASLPrepConv) of
        None \<Rightarrow> Inl NoTableEntry
      | Some entry \<Rightarrow> Inr entry)"

section \<open>Decomposition\<close>

text \<open>
  \<open>entry->codes[0]\<close>. A C array has at least one element; for the empty list, which no
  C table can hold, the model reads the padding value 0.
\<close>

definition codes0 :: "pg_utf_decomposition \<Rightarrow> uint32" where
  "codes0 entry = (case codes entry of [] \<Rightarrow> 0 | c # _ \<Rightarrow> c)"

text \<open>
  \<open>get_decomposed_size\<close> calls itself for every decomposition code. Nothing in the code
  bounds the depth, which is as deep as the table's decomposition chains (endless when the
  table loops). The model takes the depth available as \<open>fuel\<close> and ends with
  \<open>RecursionTooDeep\<close> when it is used up. \<open>size_loop\<close> is the \<open>for\<close> loop over
  \<open>entry->codes\<close>: it stops at the end of the array or at the first 0. Sizes are C
  \<open>int\<close>s; they count elements of an array that was allocated, so they are modelled as
  \<open>nat\<close>.
\<close>

fun get_decomposed_size :: "conv_table \<Rightarrow> nat \<Rightarrow> uint32 \<Rightarrow> error + nat"
  and size_loop :: "conv_table \<Rightarrow> nat \<Rightarrow> uint32 list \<Rightarrow> nat \<Rightarrow> error + nat" where
  "get_decomposed_size tbl 0 code = Inl RecursionTooDeep"
| "get_decomposed_size tbl (Suc fuel) code =
     (case get_code_entry tbl code of
        Inl e \<Rightarrow> Inl e
      | Inr entry \<Rightarrow>
          if codes0 entry = 0 then Inr 1
          else size_loop tbl fuel (codes entry) 0)"
| "size_loop tbl fuel [] size' = Inr size'"
| "size_loop tbl fuel (lcode # rest) size' =
     (if lcode = 0 then Inr size'
      else (case get_decomposed_size tbl fuel lcode of
              Inl e \<Rightarrow> Inl e
            | Inr n \<Rightarrow> size_loop tbl fuel rest (size' + n)))"

text \<open>
  \<open>decompose_code\<close> writes through \<open>*result\<close> at the cursor \<open>*current\<close>. The state is
  the pair of the array and the cursor; a write at or past the end of the array is
  \<open>BufferOverrun\<close>.
\<close>

fun decompose_code :: "conv_table \<Rightarrow> nat \<Rightarrow> uint32 \<Rightarrow> uint32 list \<times> nat \<Rightarrow> error + uint32 list \<times> nat"
  and decompose_loop :: "conv_table \<Rightarrow> nat \<Rightarrow> uint32 list \<Rightarrow> uint32 list \<times> nat \<Rightarrow> error + uint32 list \<times> nat" where
  "decompose_code tbl 0 code st = Inl RecursionTooDeep"
| "decompose_code tbl (Suc fuel) code st =
     (case get_code_entry tbl code of
        Inl e \<Rightarrow> Inl e
      | Inr entry \<Rightarrow>
          if codes0 entry = 0 then
            (case st of (res, current) \<Rightarrow>
               if current < length res then Inr (res[current := code], current + 1)
               else Inl BufferOverrun)
          else decompose_loop tbl fuel (codes entry) st)"
| "decompose_loop tbl fuel [] st = Inr st"
| "decompose_loop tbl fuel (lcode # rest) st =
     (if lcode = 0 then Inr st
      else (case decompose_code tbl fuel lcode st of
              Inl e \<Rightarrow> Inl e
            | Inr st' \<Rightarrow> decompose_loop tbl fuel rest st'))"

section \<open>pg_sasl_prepare\<close>

text \<open>
  \<open>new_intArrayType\<close>, when the allocation has the size asked for: \<open>palloc0\<close> gives
  \<open>num\<close> elements, all 0. This is the array of the code as long as the byte count
  fits the allocator's limit (lemma \<open>new_intArrayType_c_exact\<close> below);
  \<open>new_intArrayType_c\<close> is the function with its byte count.
\<close>

definition new_intArrayType :: "nat \<Rightarrow> uint32 list" where
  "new_intArrayType num = replicate num 0"

text \<open>
  \<open>new_intArrayType\<close> with the arithmetic of the code:
  \<open>int nbytes = ARR_OVERHEAD_NONULLS(1) + sizeof(int) * num\<close> is computed in \<open>size_t\<close> and
  stored in a 32-bit \<open>int\<close>, so \<open>nbytes\<close> is the sum modulo \<open>2 ^ 32\<close>, read as a signed
  number. \<open>palloc0 (nbytes)\<close> refuses a negative count (a huge \<open>Size\<close>) and a count above
  \<open>MaxAllocSize\<close>; otherwise it returns \<open>nbytes\<close> zeroed bytes, whatever \<open>num\<close> was. The
  array then has room for the elements that fit after the header: the header fields
  written next (\<open>ARR_DIMS(r)[0] = num\<close> among them) lie outside the allocation when
  \<open>nbytes\<close> is less than the header, and so does every element from
  \<open>(nbytes - overhead) div 4\<close> on. The header size \<open>ARR_OVERHEAD_NONULLS(1)\<close> and
  \<open>MaxAllocSize\<close> come from the server's headers, not part of the sources: they are the
  parameters \<open>overhead\<close> and \<open>max_alloc\<close> (24 and \<open>0x3fffffff\<close> in PostgreSQL).
\<close>

definition new_intArrayType_c :: "nat \<Rightarrow> nat \<Rightarrow> nat \<Rightarrow> error + uint32 list" where
  "new_intArrayType_c overhead max_alloc num =
     (let nbytes = sint (word_of_nat (overhead + 4 * num) :: 32 word) in
        if nbytes < 0 \<or> int max_alloc < nbytes then Inl InvalidAllocSize
        else if nbytes < int overhead then Inl BufferOverrun
        else Inr (replicate (nat (nbytes - int overhead) div 4) 0))"

text \<open>The first loop of \<open>pg_sasl_prepare\<close>: the sum of the decomposed sizes.\<close>

fun size_pass :: "conv_table \<Rightarrow> nat \<Rightarrow> uint32 list \<Rightarrow> nat \<Rightarrow> error + nat" where
  "size_pass tbl fuel [] size' = Inr size'"
| "size_pass tbl fuel (code # rest) size' =
     (case get_decomposed_size tbl fuel code of
        Inl e \<Rightarrow> Inl e
      | Inr n \<Rightarrow> size_pass tbl fuel rest (size' + n))"

text \<open>The second loop: every input code is decomposed into the result array.\<close>

fun fill_pass :: "conv_table \<Rightarrow> nat \<Rightarrow> uint32 list \<Rightarrow> uint32 list \<times> nat \<Rightarrow> error + uint32 list \<times> nat" where
  "fill_pass tbl fuel [] st = Inr st"
| "fill_pass tbl fuel (code # rest) st =
     (case decompose_code tbl fuel code st of
        Inl e \<Rightarrow> Inl e
      | Inr st' \<Rightarrow> fill_pass tbl fuel rest st')"

text \<open>
  The first two loops of \<open>pg_sasl_prepare\<close> (lines 200 to 223) with the allocation as
  the code computes it: the sizes are summed in \<open>int size\<close>, \<open>new_intArrayType (size)\<close>
  allocates, and the second loop fills the array from \<open>size = 0\<close>. The sizes are not
  negative, so the sum overflows the \<open>int\<close> at some addition exactly when the whole sum
  is \<open>2 ^ 31\<close> or more.
\<close>

definition decomposition_passes ::
  "nat \<Rightarrow> nat \<Rightarrow> conv_table \<Rightarrow> nat \<Rightarrow> uint32 list \<Rightarrow> error + uint32 list \<times> nat" where
  "decomposition_passes overhead max_alloc tbl fuel input =
     (case size_pass tbl fuel input 0 of
        Inl e \<Rightarrow> Inl e
      | Inr size' \<Rightarrow>
         if 2 ^ 31 \<le> size' then Inl SizeOverflow
         else (case new_intArrayType_c overhead max_alloc size' of
                 Inl e \<Rightarrow> Inl e
               | Inr result_ptr \<Rightarrow> fill_pass tbl fuel input (result_ptr, 0)))"

text \<open>
  One iteration of the third loop, from the state \<open>(result_ptr, count)\<close> to the state at
  the next test of the loop condition (the \<open>count++\<close> of the \<open>for\<close> included). The loop
  runs it only with \<open>1 \<le> count < ARRNELEMS(result)\<close>, so both reads are in range.
\<close>

definition reorder_iter :: "conv_table \<Rightarrow> uint32 list \<times> nat \<Rightarrow> error + uint32 list \<times> nat" where
  "reorder_iter tbl st =
     (case st of (result_ptr, count) \<Rightarrow>
        (let prev = result_ptr ! (count - 1); next = result_ptr ! count in
           case get_code_entry tbl prev of
             Inl e \<Rightarrow> Inl e
           | Inr prevEntry \<Rightarrow>
              (case get_code_entry tbl next of
                 Inl e \<Rightarrow> Inl e
               | Inr nextEntry \<Rightarrow>
                   if class' nextEntry = 0 \<or> class' prevEntry = 0 then Inr (result_ptr, count + 1)
                   else if class' prevEntry \<le> class' nextEntry then Inr (result_ptr, count + 1)
                   else Inr (result_ptr[count - 1 := next, count := prev],
                             (if count > 1 then count - 2 else count) + 1))))"

text \<open>
  The measure of the third loop: the combining class of a code (0 where the table has no
  row), and the number of inverted pairs of a list of classes, that is of positions
  \<open>i < j\<close> with the class at \<open>i\<close> greater than the class at \<open>j\<close>.
\<close>

definition class_of :: "conv_table \<Rightarrow> uint32 \<Rightarrow> nat" where
  "class_of tbl code = (case get_code_entry tbl code of Inl e \<Rightarrow> 0 | Inr entry \<Rightarrow> unat (class' entry))"

fun inversions :: "nat list \<Rightarrow> nat" where
  "inversions [] = 0"
| "inversions (x # xs) = length (filter (\<lambda>y. y < x) xs) + inversions xs"

subsection \<open>The reordering loop ends\<close>

lemma inversions_swap:
  "b < a \<Longrightarrow> inversions (xs @ a # b # ys) = Suc (inversions (xs @ b # a # ys))"
  by (induction xs) auto

lemma swap_conv_append:
  assumes "1 \<le> count" "count < length arr"
  shows "arr = take (count - 1) arr @ arr ! (count - 1) # arr ! count # drop (Suc count) arr"
    and "arr[count - 1 := arr ! count, count := arr ! (count - 1)] =
         take (count - 1) arr @ arr ! count # arr ! (count - 1) # drop (Suc count) arr"
proof -
  obtain k where k: "count = Suc k" using assms(1) by (cases count) auto
  have len: "k < length arr" "Suc k < length arr" using assms(2) k by auto
  have a: "arr = take k arr @ arr ! k # drop (Suc k) arr"
    using len(1) by (simp add: id_take_nth_drop)
  have b: "drop (Suc k) arr = arr ! Suc k # drop (Suc (Suc k)) arr"
    using len(2) by (simp add: Cons_nth_drop_Suc)
  show "arr = take (count - 1) arr @ arr ! (count - 1) # arr ! count # drop (Suc count) arr"
    using a b k by simp
  define xs where "xs = take k arr"
  define ys where "ys = drop (Suc (Suc k)) arr"
  have c: "arr = xs @ arr ! k # arr ! Suc k # ys" "length xs = k"
    using a b len by (simp_all add: xs_def ys_def)
  have "(xs @ arr ! k # arr ! Suc k # ys)[k := arr ! Suc k, Suc k := arr ! k] =
        xs @ arr ! Suc k # arr ! k # ys"
    using c(2) by (simp add: list_update_append)
  then show "arr[count - 1 := arr ! count, count := arr ! (count - 1)] =
         take (count - 1) arr @ arr ! count # arr ! (count - 1) # drop (Suc count) arr"
    using c(1) k by (simp add: xs_def ys_def)
qed


lemma reorder_iter_Inr:
  assumes "reorder_iter tbl (arr, count) = Inr (arr', count')"
  obtains prevEntry nextEntry where
    "get_code_entry tbl (arr ! (count - 1)) = Inr prevEntry"
    "get_code_entry tbl (arr ! count) = Inr nextEntry"
    "(class_of tbl (arr ! count) = 0 \<or> class_of tbl (arr ! (count - 1)) = 0 \<or>
      class_of tbl (arr ! (count - 1)) \<le> class_of tbl (arr ! count)) \<and>
       arr' = arr \<and> count' = count + 1
     \<or>
     class_of tbl (arr ! count) \<noteq> 0 \<and> class_of tbl (arr ! (count - 1)) \<noteq> 0 \<and>
       class_of tbl (arr ! count) < class_of tbl (arr ! (count - 1)) \<and>
       arr' = arr[count - 1 := arr ! count, count := arr ! (count - 1)] \<and>
       count' = (if count > 1 then count - 1 else count + 1)"
  using assms
  by (auto simp: reorder_iter_def class_of_def Let_def unat_eq_0 word_le_nat_alt word_less_nat_alt
      split: sum.splits if_splits)

lemma reorder_iter_length:
  "reorder_iter tbl (arr, count) = Inr (arr', count') \<Longrightarrow> length arr' = length arr"
  by (erule reorder_iter_Inr) auto

lemma reorder_iter_measure:
  assumes "reorder_iter tbl (arr, count) = Inr (arr', count')" "count < length arr"
  shows "inversions (map (class_of tbl) arr') < inversions (map (class_of tbl) arr) \<or>
         inversions (map (class_of tbl) arr') = inversions (map (class_of tbl) arr) \<and>
           length arr' - count' < length arr - count"
  using assms(1)
proof (rule reorder_iter_Inr)
  fix prevEntry nextEntry
  assume "(class_of tbl (arr ! count) = 0 \<or> class_of tbl (arr ! (count - 1)) = 0 \<or>
      class_of tbl (arr ! (count - 1)) \<le> class_of tbl (arr ! count)) \<and>
       arr' = arr \<and> count' = count + 1
     \<or>
     class_of tbl (arr ! count) \<noteq> 0 \<and> class_of tbl (arr ! (count - 1)) \<noteq> 0 \<and>
       class_of tbl (arr ! count) < class_of tbl (arr ! (count - 1)) \<and>
       arr' = arr[count - 1 := arr ! count, count := arr ! (count - 1)] \<and>
       count' = (if count > 1 then count - 1 else count + 1)"
  then show ?thesis
  proof (elim disjE conjE)
    assume lt: "class_of tbl (arr ! count) < class_of tbl (arr ! (count - 1))"
      and arr': "arr' = arr[count - 1 := arr ! count, count := arr ! (count - 1)]"
    have c1: "1 \<le> count" using lt by (cases count) auto
    let ?xs = "take (count - 1) arr" and ?ys = "drop (Suc count) arr"
    have "map (class_of tbl) arr =
          map (class_of tbl) ?xs @ class_of tbl (arr ! (count - 1)) # class_of tbl (arr ! count) # map (class_of tbl) ?ys"
      using arg_cong [OF swap_conv_append(1) [OF c1 assms(2)], of "map (class_of tbl)"] by simp
    moreover have "map (class_of tbl) arr' =
          map (class_of tbl) ?xs @ class_of tbl (arr ! count) # class_of tbl (arr ! (count - 1)) # map (class_of tbl) ?ys"
      using arg_cong [OF swap_conv_append(2) [OF c1 assms(2)], of "map (class_of tbl)"] arr' by simp
    ultimately show ?thesis using inversions_swap [OF lt] by simp
  qed (use assms(2) in auto)
qed

text \<open>
  The third loop, \<open>for (count = 1; count < ARRNELEMS(result); count++)\<close>, whose body
  moves \<open>count\<close> back after an exchange. It ends: an exchange removes one inverted
  pair of classes, and an iteration without exchange moves \<open>count\<close> forward.
\<close>

function reorder_loop :: "conv_table \<Rightarrow> uint32 list \<Rightarrow> nat \<Rightarrow> error + uint32 list" where
  "reorder_loop tbl result_ptr count =
     (if count < length result_ptr then
        (case reorder_iter tbl (result_ptr, count) of
           Inl e \<Rightarrow> Inl e
         | Inr (result_ptr', count') \<Rightarrow> reorder_loop tbl result_ptr' count')
      else Inr result_ptr)"
  by pat_completeness auto
termination
proof (relation "inv_image (less_than <*lex*> less_than)
    (\<lambda>(tbl, arr, count). (inversions (map (class_of tbl) arr), length arr - count))")
  show "wf (inv_image (less_than <*lex*> less_than)
    (\<lambda>(tbl, arr, count). (inversions (map (class_of tbl) arr), length arr - count)))"
    by (intro wf_inv_image wf_lex_prod wf_less_than)
next
  fix tbl :: conv_table and result_ptr :: "uint32 list" and count x2 x y
  assume "count < length result_ptr" "reorder_iter tbl (result_ptr, count) = Inr x2" "(x, y) = x2"
  then show "((tbl, x, y), tbl, result_ptr, count) \<in> inv_image (less_than <*lex*> less_than)
    (\<lambda>(tbl, arr, count). (inversions (map (class_of tbl) arr), length arr - count))"
    using reorder_iter_measure [of tbl result_ptr count x y] by auto
qed

declare reorder_loop.simps [simp del]

text \<open>\<open>pg_sasl_prepare\<close>: the three loops in sequence.\<close>

definition pg_sasl_prepare :: "conv_table \<Rightarrow> nat \<Rightarrow> uint32 list \<Rightarrow> error + uint32 list" where
  "pg_sasl_prepare tbl fuel input =
     (case size_pass tbl fuel input 0 of
        Inl e \<Rightarrow> Inl e
      | Inr size' \<Rightarrow>
         (case fill_pass tbl fuel input (new_intArrayType size', 0) of
            Inl e \<Rightarrow> Inl e
          | Inr (result_ptr, current) \<Rightarrow> reorder_loop tbl result_ptr 1))"

section \<open>UTF-8 codec\<close>

text \<open>
  \<open>GetDatabaseEncoding()\<close> is the server's setting; the code only tests it against
  \<open>PG_UTF8\<close>.
\<close>

datatype pg_enc = PG_UTF8 | PG_OTHER_ENCODING

text \<open>
  A \<open>const unsigned char *\<close> into the C string made by \<open>text_to_cstring\<close> is the list
  of the bytes from the pointer to the end of the text; the terminating NUL follows
  them. \<open>deref beyond s k\<close> is \<open>s[k]\<close>: a byte of the text, the terminator at
  \<open>k = length s\<close>, and past the terminator whatever the memory holds, which is the
  parameter \<open>beyond\<close>. The C variable \<open>utf\<close> is written \<open>utf'\<close> below, \<open>utf\<close>
  being a field of the table row; likewise \<open>size'\<close> and \<open>length'\<close> stand for the C
  names \<open>size\<close> and \<open>length\<close>.
\<close>

definition deref :: "(nat \<Rightarrow> uint8) \<Rightarrow> uint8 list \<Rightarrow> nat \<Rightarrow> uint8" where
  "deref beyond s k =
     (if k < length s then s ! k
      else if k = length s then 0
      else beyond (k - Suc (length s)))"











text \<open>
  \<open>array_to_utf8\<close>. The first loop counts, for each code, the bytes that the four
  masks find non-zero; the second writes them with \<open>result[count++] = ...\<close> (\<open>put\<close>)
  into the \<open>palloc0(size + 1)\<close> buffer. \<open>cstring_to_text\<close> takes the bytes up to the
  first NUL.
\<close>

fun size_bytes :: "uint32 list \<Rightarrow> nat \<Rightarrow> nat" where
  "size_bytes [] size' = size'"
| "size_bytes (code # rest) size' =
     (let s1 = (if code AND 0xff000000 \<noteq> 0 then size' + 1 else size');
          s2 = (if code AND 0x00ff0000 \<noteq> 0 then s1 + 1 else s1);
          s3 = (if code AND 0x0000ff00 \<noteq> 0 then s2 + 1 else s2);
          s4 = (if code AND 0x000000ff \<noteq> 0 then s3 + 1 else s3)
      in size_bytes rest s4)"

definition put :: "uint8 \<Rightarrow> uint8 list \<times> nat \<Rightarrow> error + uint8 list \<times> nat" where
  "put b st =
     (case st of (result, count) \<Rightarrow>
        if count < length result then Inr (result[count := b], count + 1)
        else Inl BufferOverrun)"

fun fill_bytes :: "uint32 list \<Rightarrow> uint8 list \<times> nat \<Rightarrow> error + uint8 list \<times> nat" where
  "fill_bytes [] st = Inr st"
| "fill_bytes (code # rest) st =
     (case (if code AND 0xff000000 \<noteq> 0 then put (ucast (drop_bit 24 code)) st else Inr st) of
        Inl e \<Rightarrow> Inl e
      | Inr st1 \<Rightarrow>
     (case (if code AND 0x00ff0000 \<noteq> 0 then put (ucast (drop_bit 16 code)) st1 else Inr st1) of
        Inl e \<Rightarrow> Inl e
      | Inr st2 \<Rightarrow>
     (case (if code AND 0x0000ff00 \<noteq> 0 then put (ucast (drop_bit 8 code)) st2 else Inr st2) of
        Inl e \<Rightarrow> Inl e
      | Inr st3 \<Rightarrow>
     (case (if code AND 0x000000ff \<noteq> 0 then put (ucast code) st3 else Inr st3) of
        Inl e \<Rightarrow> Inl e
      | Inr st4 \<Rightarrow> fill_bytes rest st4))))"

definition cstring_to_text :: "uint8 list \<Rightarrow> uint8 list" where
  "cstring_to_text s = takeWhile (\<lambda>b. b \<noteq> 0) s"

definition array_to_utf8 :: "uint32 list \<Rightarrow> error + uint8 list" where
  "array_to_utf8 input =
     (let size' = size_bytes input 0 in
        case fill_bytes input (replicate (size' + 1) 0, 0) of
          Inl e \<Rightarrow> Inl e
        | Inr (result, count) \<Rightarrow>
            if count < length result then
              (if count = size' then Inr (cstring_to_text (result[count := 0]))
               else Inl AssertFailed)
            else Inl BufferOverrun)"

section \<open>Notions used in the statements\<close>

text \<open>
  The four bytes of a code, most significant first, and those of them that are not 0.
\<close>

definition be_bytes :: "uint32 \<Rightarrow> uint8 list" where
  "be_bytes code =
     [ucast (drop_bit 24 code), ucast (drop_bit 16 code), ucast (drop_bit 8 code), ucast code]"

definition emitted :: "uint32 \<Rightarrow> uint8 list" where
  "emitted code = filter (\<lambda>b. b \<noteq> 0) (be_bytes code)"

text \<open>
  The decomposition of a code as a value, as the spec words it: the code itself when its
  row has no decomposition, otherwise the decompositions of the row's codes, in order, up
  to the first 0. \<open>fuel\<close> bounds the depth as in \<open>get_decomposed_size\<close>.
  \<open>decompose_all\<close> decomposes every code of an input.
\<close>

fun decompose :: "conv_table \<Rightarrow> nat \<Rightarrow> uint32 \<Rightarrow> error + uint32 list"
  and decompose_codes :: "conv_table \<Rightarrow> nat \<Rightarrow> uint32 list \<Rightarrow> error + uint32 list" where
  "decompose tbl 0 code = Inl RecursionTooDeep"
| "decompose tbl (Suc fuel) code =
     (case get_code_entry tbl code of
        Inl e \<Rightarrow> Inl e
      | Inr entry \<Rightarrow>
          if codes0 entry = 0 then Inr [code]
          else decompose_codes tbl fuel (codes entry))"
| "decompose_codes tbl fuel [] = Inr []"
| "decompose_codes tbl fuel (lcode # rest) =
     (if lcode = 0 then Inr []
      else (case decompose tbl fuel lcode of
              Inl e \<Rightarrow> Inl e
            | Inr xs \<Rightarrow>
               (case decompose_codes tbl fuel rest of
                  Inl e \<Rightarrow> Inl e
                | Inr ys \<Rightarrow> Inr (xs @ ys))))"

fun decompose_all :: "conv_table \<Rightarrow> nat \<Rightarrow> uint32 list \<Rightarrow> error + uint32 list" where
  "decompose_all tbl fuel [] = Inr []"
| "decompose_all tbl fuel (code # rest) =
     (case decompose tbl fuel code of
        Inl e \<Rightarrow> Inl e
      | Inr xs \<Rightarrow>
         (case decompose_all tbl fuel rest of
            Inl e \<Rightarrow> Inl e
          | Inr ys \<Rightarrow> Inr (xs @ ys)))"

text \<open>
  A code has a well-formed decomposition when it has a row and, unless that row is
  terminal, every code of the row's decomposition has a well-formed decomposition: the
  tree of decompositions is finite and every code in it is in the table.
\<close>

inductive well_formed :: "conv_table \<Rightarrow> uint32 \<Rightarrow> bool" for tbl where
  terminal: "get_code_entry tbl code = Inr entry \<Longrightarrow> codes0 entry = 0 \<Longrightarrow> well_formed tbl code"
| composite: "get_code_entry tbl code = Inr entry \<Longrightarrow> codes0 entry \<noteq> 0 \<Longrightarrow>
     (\<forall>c \<in> set (takeWhile (\<lambda>c. c \<noteq> 0) (codes entry)). well_formed tbl c) \<Longrightarrow>
     well_formed tbl code"

text \<open>A terminal code: it has a row, and the row's first decomposition code is 0.\<close>

definition is_terminal :: "conv_table \<Rightarrow> uint32 \<Rightarrow> bool" where
  "is_terminal tbl code =
     (case get_code_entry tbl code of Inl e \<Rightarrow> False | Inr entry \<Rightarrow> codes0 entry = 0)"

text \<open>
  A small table in the format of \<open>SASLPrepConv\<close>, sorted by \<open>utf\<close>, for the concrete
  instances: A, A with ring above (decomposed into A and the combining ring), the
  combining acute accent and ring above (class 230), the combining dot below (class
  220), and the Angstrom sign (decomposed into A with ring above).
\<close>

definition example_table :: conv_table where
  "example_table =
     [\<lparr>utf = 0x41, class' = 0, codes = [0, 0, 0]\<rparr>,
      \<lparr>utf = 0xC385, class' = 0, codes = [0x41, 0xCC8A, 0]\<rparr>,
      \<lparr>utf = 0xCC81, class' = 230, codes = [0, 0, 0]\<rparr>,
      \<lparr>utf = 0xCC8A, class' = 230, codes = [0, 0, 0]\<rparr>,
      \<lparr>utf = 0xCCA3, class' = 220, codes = [0, 0, 0]\<rparr>,
      \<lparr>utf = 0xE284AB, class' = 0, codes = [0xC385, 0, 0]\<rparr>]"

text \<open>
  A second table in the same format, with rows of 18 codes: the ligature U+FDFA
  (\<open>0xEFB7BA\<close> as packed UTF-8), whose decomposition is 18 codes long, and a terminal
  row for each of the codes it decomposes into.
\<close>

definition ligature_table :: conv_table where
  "ligature_table =
     [\<lparr>utf = 0x20, class' = 0, codes = replicate 18 0\<rparr>,
      \<lparr>utf = 0xD8A7, class' = 0, codes = replicate 18 0\<rparr>,
      \<lparr>utf = 0xD8B3, class' = 0, codes = replicate 18 0\<rparr>,
      \<lparr>utf = 0xD8B5, class' = 0, codes = replicate 18 0\<rparr>,
      \<lparr>utf = 0xD8B9, class' = 0, codes = replicate 18 0\<rparr>,
      \<lparr>utf = 0xD984, class' = 0, codes = replicate 18 0\<rparr>,
      \<lparr>utf = 0xD985, class' = 0, codes = replicate 18 0\<rparr>,
      \<lparr>utf = 0xD987, class' = 0, codes = replicate 18 0\<rparr>,
      \<lparr>utf = 0xD988, class' = 0, codes = replicate 18 0\<rparr>,
      \<lparr>utf = 0xD989, class' = 0, codes = replicate 18 0\<rparr>,
      \<lparr>utf = 0xD98A, class' = 0, codes = replicate 18 0\<rparr>,
      \<lparr>utf = 0xEFB7BA, class' = 0, codes =
         [0xD8B5, 0xD984, 0xD989, 0x20, 0xD8A7, 0xD984, 0xD984, 0xD987, 0x20,
          0xD8B9, 0xD984, 0xD98A, 0xD987, 0x20, 0xD988, 0xD8B3, 0xD984, 0xD985]\<rparr>]"

text \<open>
  A code has an entry when the lookup finds a row for it; it is a starter when that row's
  combining class is 0.
\<close>

definition has_entry :: "conv_table \<Rightarrow> uint32 \<Rightarrow> bool" where
  "has_entry tbl code = (case get_code_entry tbl code of Inl e \<Rightarrow> False | Inr entry \<Rightarrow> True)"

definition is_starter :: "conv_table \<Rightarrow> uint32 \<Rightarrow> bool" where
  "is_starter tbl code =
     (case get_code_entry tbl code of Inl e \<Rightarrow> False | Inr entry \<Rightarrow> class' entry = 0)"

text \<open>
  The test of the third loop: an adjacent pair is left alone when either code has class
  0 or the classes are in order. An array is settled when no adjacent pair would be
  exchanged.
\<close>

definition no_exchange :: "conv_table \<Rightarrow> uint32 \<Rightarrow> uint32 \<Rightarrow> bool" where
  "no_exchange tbl prev next =
     (class_of tbl next = 0 \<or> class_of tbl prev = 0 \<or> class_of tbl prev \<le> class_of tbl next)"






text \<open>
  Writing a list \<open>xs\<close> into a buffer at a cursor, as one step: the buffer keeps its
  length, the cursor moves by \<open>length xs\<close>, and the write fails when it does not fit.
  The loops of the code write element by element; the lemmas below show that they amount
  to one \<open>write_at\<close>. \<open>then_do\<close> chains two steps that can fail.
\<close>

definition write_at :: "'a list \<Rightarrow> 'a list \<times> nat \<Rightarrow> error + 'a list \<times> nat" where
  "write_at xs st =
     (case st of (buf, cur) \<Rightarrow>
        if cur + length xs \<le> length buf
        then Inr (take cur buf @ xs @ drop (cur + length xs) buf, cur + length xs)
        else Inl BufferOverrun)"

definition then_do :: "error + 'a \<Rightarrow> ('a \<Rightarrow> error + 'b) \<Rightarrow> error + 'b" where
  "then_do r f = (case r of Inl e \<Rightarrow> Inl e | Inr x \<Rightarrow> f x)"

section \<open>Buffers and cursors\<close>

lemma write_at_Nil: "cur \<le> length buf \<Longrightarrow> write_at [] (buf, cur) = Inr (buf, cur)"
  by (simp add: write_at_def)

lemma write_at_single:
  "write_at [x] (buf, cur) =
     (if cur < length buf then Inr (buf[cur := x], cur + 1) else Inl BufferOverrun)"
  by (auto simp: write_at_def upd_conv_take_nth_drop)

lemma write_at_append:
  assumes "cur \<le> length buf"
  shows "then_do (write_at xs (buf, cur)) (write_at ys) = write_at (xs @ ys) (buf, cur)"
proof (cases "cur + length xs \<le> length buf")
  case False
  then show ?thesis by (simp add: write_at_def then_do_def)
next
  case True
  have "take (cur + length xs) (take cur buf @ xs @ drop (cur + length xs) buf) = take cur buf @ xs"
    using assms by simp
  moreover have "drop (cur + length xs + length ys) (take cur buf @ xs @ drop (cur + length xs) buf)
      = drop (cur + length xs + length ys) buf"
    using assms True by (simp add: add.commute)
  ultimately show ?thesis
    using True assms by (simp add: write_at_def then_do_def add.assoc)
qed

lemma write_at_bounds:
  "write_at xs (buf, cur) = Inr (buf', cur') \<Longrightarrow>
     length buf' = length buf \<and> cur' = cur + length xs \<and> cur' \<le> length buf"
  by (auto simp: write_at_def split: if_splits)

lemma write_at_then:
  assumes "snd st \<le> length (fst st)"
    and "r = write_at xs st"
    and "\<And>st'. r = Inr st' \<Longrightarrow> snd st' \<le> length (fst st') \<Longrightarrow> k st' = write_at ys st'"
  shows "(case r of Inl e \<Rightarrow> Inl e | Inr st' \<Rightarrow> k st') = write_at (xs @ ys) st"
proof -
  obtain buf cur where st: "st = (buf, cur)" by (cases st)
  have app: "then_do (write_at xs st) (write_at ys) = write_at (xs @ ys) st"
    using assms(1) unfolding st by (intro write_at_append) simp
  show ?thesis
  proof (cases "write_at xs st")
    case (Inl e)
    have "write_at (xs @ ys) st = Inl e"
      unfolding app [symmetric] Inl by (simp add: then_do_def)
    then show ?thesis by (simp add: Inl assms(2))
  next
    case (Inr st')
    then have "snd st' \<le> length (fst st')"
      using write_at_bounds [of xs buf cur "fst st'" "snd st'"] st by simp
    then have "k st' = write_at ys st'" using Inr assms(2) by (intro assms(3)) simp_all
    moreover have "write_at (xs @ ys) st = write_at ys st'"
      unfolding app [symmetric] Inr by (simp add: then_do_def)
    ultimately show ?thesis by (simp add: Inr assms(2))
  qed
qed

lemma write_at_whole: "write_at xs (replicate (length xs) x, 0) = Inr (xs, length xs)"
  by (simp add: write_at_def)

section \<open>array_to_utf8\<close>

lemma byte_mask_gen:
  fixes code :: uint32
  assumes "k \<le> 24"
  shows "(code AND push_bit k (mask 8) = 0) = ((ucast (drop_bit k code) :: uint8) = 0)"
proof
  assume h: "code AND push_bit k (mask 8) = 0"
  show "(ucast (drop_bit k code) :: uint8) = 0"
  proof (rule bit_eqI)
    fix n
    have "\<not> bit (code AND push_bit k (mask 8)) (k + n)" using h by simp
    then show "bit (ucast (drop_bit k code) :: uint8) n = bit (0 :: uint8) n"
      using assms by (auto simp: bit_simps)
  qed
next
  assume h: "(ucast (drop_bit k code) :: uint8) = 0"
  show "code AND push_bit k (mask 8) = 0"
  proof (rule bit_eqI)
    fix n
    have "\<not> bit (ucast (drop_bit k code) :: uint8) (n - k)" using h by simp
    then show "bit (code AND push_bit k (mask 8)) n = bit (0 :: uint32) n"
      using assms by (auto simp: bit_simps)
  qed
qed

lemma byte_masks:
  fixes code :: uint32
  shows "(code AND 0xff000000 = 0) = ((ucast (drop_bit 24 code) :: uint8) = 0)"
    and "(code AND 0x00ff0000 = 0) = ((ucast (drop_bit 16 code) :: uint8) = 0)"
    and "(code AND 0x0000ff00 = 0) = ((ucast (drop_bit 8 code) :: uint8) = 0)"
    and "(code AND 0x000000ff = 0) = ((ucast code :: uint8) = 0)"
  using byte_mask_gen [of 24 code] byte_mask_gen [of 16 code] byte_mask_gen [of 8 code]
    byte_mask_gen [of 0 code]
  by (simp_all add: mask_eq_exp_minus_1)

lemma size_bytes_eq: "size_bytes arr s = s + length (concat (map emitted arr))"
  by (induction arr arbitrary: s) (simp_all add: emitted_def be_bytes_def byte_masks Let_def)


lemma put_write_at: "put b st = write_at [b] st"
  by (cases st) (simp add: put_def write_at_single)


lemma step_write:
  assumes "snd st \<le> length (fst st)"
    and "\<And>st'. snd st' \<le> length (fst st') \<Longrightarrow> k st' = write_at ys st'"
  shows "(case (if c then put b st else Inr st) of Inl e \<Rightarrow> Inl e | Inr st' \<Rightarrow> k st') =
         write_at ((if c then [b] else []) @ ys) st"
proof -
  obtain buf cur where st: "st = (buf, cur)" by (cases st)
  define w where "w = (if c then [b] else [])"
  have w: "(if c then put b st else Inr st) = write_at w st"
    using assms(1) st by (simp add: w_def put_write_at write_at_Nil)
  have app: "then_do (write_at w st) (write_at ys) = write_at (w @ ys) st"
    using assms(1) unfolding st by (intro write_at_append) simp
  have "(case write_at w st of Inl e \<Rightarrow> Inl e | Inr st' \<Rightarrow> k st') = write_at (w @ ys) st"
  proof (cases "write_at w st")
    case (Inl e)
    have "write_at (w @ ys) st = Inl e"
      unfolding app [symmetric] Inl by (simp add: then_do_def)
    then show ?thesis by (simp add: Inl)
  next
    case (Inr st')
    then have "snd st' \<le> length (fst st')"
      using write_at_bounds [of w buf cur "fst st'" "snd st'"] st by simp
    then have "k st' = write_at ys st'" by (rule assms(2))
    moreover have "write_at (w @ ys) st = write_at ys st'"
      unfolding app [symmetric] Inr by (simp add: then_do_def)
    ultimately show ?thesis by (simp add: Inr)
  qed
  then show ?thesis unfolding w w_def .
qed

lemma fill_bytes_write_at:
  "snd st \<le> length (fst st) \<Longrightarrow> fill_bytes arr st = write_at (concat (map emitted arr)) st"
proof (induction arr arbitrary: st)
  case Nil
  then show ?case by (cases st) (simp add: write_at_Nil)
next
  case (Cons code arr)
  let ?b3 = "ucast (drop_bit 24 code) :: uint8" and ?b2 = "ucast (drop_bit 16 code) :: uint8"
  let ?b1 = "ucast (drop_bit 8 code) :: uint8" and ?b0 = "ucast code :: uint8"
  have em: "emitted code = (if ?b3 \<noteq> 0 then [?b3] else []) @ (if ?b2 \<noteq> 0 then [?b2] else []) @
      (if ?b1 \<noteq> 0 then [?b1] else []) @ (if ?b0 \<noteq> 0 then [?b0] else [])"
    by (simp add: emitted_def be_bytes_def)
  show ?case
    unfolding fill_bytes.simps list.map concat.simps em append_assoc byte_masks
    by (intro step_write Cons.IH Cons.prems)
qed

lemma takeWhile_nonzero: "0 \<notin> set xs \<Longrightarrow> takeWhile (\<lambda>b. b \<noteq> 0) (xs @ 0 # ys) = xs"
  by (induction xs) auto

lemma emitted_nonzero: "0 \<notin> set (concat (map emitted arr))"
  by (auto simp: emitted_def)

lemma array_to_utf8_eq: "array_to_utf8 arr = Inr (concat (map emitted arr))"
proof -
  let ?bs = "concat (map emitted arr)"
  have "fill_bytes arr (replicate (length ?bs + 1) 0, 0) = write_at ?bs (replicate (length ?bs + 1) 0, 0)"
    by (rule fill_bytes_write_at) simp
  also have "\<dots> = Inr (?bs @ [0], length ?bs)"
    by (simp add: write_at_def replicate_append_same [symmetric])
  finally show ?thesis
    using takeWhile_nonzero [OF emitted_nonzero, of arr "[]"]
    by (simp add: array_to_utf8_def size_bytes_eq cstring_to_text_def list_update_append)
qed

text \<open>
  C10. For every array, \<open>array_to_utf8\<close> returns, code by code, the bytes of the
  code's four-byte big-endian representation that are not 0, most significant first. A
  zero byte is skipped also below a non-zero one (\<open>0x00410042\<close> gives the two bytes
  \<open>0x41 0x42\<close>), the code 0 gives no byte at all, and so the arrays \<open>[0]\<close> and
  \<open>[]\<close> have the same encoding: the function is not injective.
\<close>

theorem array_to_utf8_nonzero_bytes:
  "array_to_utf8 arr = Inr (concat (map (\<lambda>code. filter (\<lambda>b. b \<noteq> 0) (be_bytes code)) arr))
   \<and> array_to_utf8 [0x00410042] = Inr [0x41, 0x42]
   \<and> array_to_utf8 [0] = Inr []
   \<and> array_to_utf8 [0] = array_to_utf8 []"
  using array_to_utf8_eq [of arr] array_to_utf8_eq [of "[0x00410042]"] array_to_utf8_eq [of "[0]"]
    array_to_utf8_eq [of "[]"]
  by (simp add: emitted_def [abs_def] be_bytes_def)

section \<open>The two passes of the decomposition\<close>

lemma example_entries:
  "get_code_entry example_table 0x41 = Inr \<lparr>utf = 0x41, class' = 0, codes = [0, 0, 0]\<rparr>"
  "get_code_entry example_table 0xC385 = Inr \<lparr>utf = 0xC385, class' = 0, codes = [0x41, 0xCC8A, 0]\<rparr>"
  "get_code_entry example_table 0xCC81 = Inr \<lparr>utf = 0xCC81, class' = 230, codes = [0, 0, 0]\<rparr>"
  "get_code_entry example_table 0xCC8A = Inr \<lparr>utf = 0xCC8A, class' = 230, codes = [0, 0, 0]\<rparr>"
  "get_code_entry example_table 0xCCA3 = Inr \<lparr>utf = 0xCCA3, class' = 220, codes = [0, 0, 0]\<rparr>"
  "get_code_entry example_table 0xE284AB = Inr \<lparr>utf = 0xE284AB, class' = 0, codes = [0xC385, 0, 0]\<rparr>"
  "get_code_entry example_table 0xFFFFFFFF = Inl NoTableEntry"
  by code_simp+

lemma example_well_formed:
  "well_formed example_table 0x41"
  "well_formed example_table 0xCC8A"
  "well_formed example_table 0xC385"
  "well_formed example_table 0xE284AB"
proof -
  show a: "well_formed example_table 0x41"
    by (rule well_formed.terminal [OF example_entries(1)]) (simp add: codes0_def)
  show b: "well_formed example_table 0xCC8A"
    by (rule well_formed.terminal [OF example_entries(4)]) (simp add: codes0_def)
  show c: "well_formed example_table 0xC385"
    by (rule well_formed.composite [OF example_entries(2)]) (simp_all add: codes0_def a b)
  show "well_formed example_table 0xE284AB"
    by (rule well_formed.composite [OF example_entries(6)]) (simp_all add: codes0_def c)
qed

lemma size_is_length:
  "get_decomposed_size tbl fuel code =
     (case decompose tbl fuel code of Inl e \<Rightarrow> Inl e | Inr xs \<Rightarrow> Inr (length xs))"
  "size_loop tbl fuel cs s =
     (case decompose_codes tbl fuel cs of Inl e \<Rightarrow> Inl e | Inr xs \<Rightarrow> Inr (s + length xs))"
  by (induction tbl fuel code and tbl fuel cs s rule: get_decomposed_size_size_loop.induct)
     (auto split: sum.splits)

lemma size_pass_is_length:
  "size_pass tbl fuel input s =
     (case decompose_all tbl fuel input of Inl e \<Rightarrow> Inl e | Inr xs \<Rightarrow> Inr (s + length xs))"
  by (induction input arbitrary: s) (auto simp: size_is_length split: sum.splits)

lemma decompose_code_write_at:
  "decompose tbl fuel code = Inr xs \<Longrightarrow> snd st \<le> length (fst st) \<Longrightarrow>
     decompose_code tbl fuel code st = write_at xs st"
  "decompose_codes tbl fuel cs = Inr ys \<Longrightarrow> snd st \<le> length (fst st) \<Longrightarrow>
     decompose_loop tbl fuel cs st = write_at ys st"
proof (induction tbl fuel code st and tbl fuel cs st arbitrary: xs and ys
    rule: decompose_code_decompose_loop.induct)
  case (1 tbl code st)
  then show ?case by simp
next
  case (2 tbl fuel code st)
  then show ?case
    by (cases st) (auto simp: write_at_single split: sum.splits if_splits)
next
  case (3 tbl fuel st)
  then show ?case by (cases st) (simp add: write_at_Nil)
next
  case (4 tbl fuel lcode rest st)
  show ?case
  proof (cases "lcode = 0")
    case True
    then show ?thesis using 4 by (cases st) (simp add: write_at_Nil)
  next
    case False
    from "4.prems"(1) False obtain xs zs where
      xs: "decompose tbl fuel lcode = Inr xs" and zs: "decompose_codes tbl fuel rest = Inr zs"
      and ys: "ys = xs @ zs"
      by (auto split: sum.splits)
    have a: "decompose_code tbl fuel lcode st = write_at xs st"
      using "4.IH"(1) [OF False xs "4.prems"(2)] .
    have "(case decompose_code tbl fuel lcode st of Inl e \<Rightarrow> Inl e
           | Inr st' \<Rightarrow> decompose_loop tbl fuel rest st') = write_at (xs @ zs) st"
    proof (rule write_at_then [OF "4.prems"(2) a])
      fix st' :: "uint32 list \<times> nat"
      assume "decompose_code tbl fuel lcode st = Inr st'" "snd st' \<le> length (fst st')"
      then show "decompose_loop tbl fuel rest st' = write_at zs st'"
        using "4.IH"(2) [OF False _ zs] by simp
    qed
    then show ?thesis using False ys by simp
  qed
qed

lemma fill_pass_write_at:
  "decompose_all tbl fuel input = Inr xs \<Longrightarrow> snd st \<le> length (fst st) \<Longrightarrow>
     fill_pass tbl fuel input st = write_at xs st"
proof (induction input arbitrary: xs st)
  case Nil
  then show ?case by (cases st) (simp add: write_at_Nil)
next
  case (Cons code rest)
  from Cons.prems(1) obtain ys zs where
    ys: "decompose tbl fuel code = Inr ys" and zs: "decompose_all tbl fuel rest = Inr zs"
    and xs: "xs = ys @ zs"
    by (auto split: sum.splits)
  have a: "decompose_code tbl fuel code st = write_at ys st"
    using decompose_code_write_at(1) [OF ys Cons.prems(2)] .
  have "(case decompose_code tbl fuel code st of Inl e \<Rightarrow> Inl e
         | Inr st' \<Rightarrow> fill_pass tbl fuel rest st') = write_at (ys @ zs) st"
    by (rule write_at_then [OF Cons.prems(2) a]) (rule Cons.IH [OF zs])
  then show ?case using xs by simp
qed

lemma pg_sasl_prepare_eq:
  "pg_sasl_prepare tbl fuel input =
     (case decompose_all tbl fuel input of
        Inl e \<Rightarrow> Inl e
      | Inr xs \<Rightarrow> reorder_loop tbl xs 1)"
proof (cases "decompose_all tbl fuel input")
  case (Inl e)
  then show ?thesis by (simp add: pg_sasl_prepare_def size_pass_is_length)
next
  case (Inr xs)
  have "fill_pass tbl fuel input (new_intArrayType (length xs), 0) = Inr (xs, length xs)"
    using fill_pass_write_at [OF Inr, of "(new_intArrayType (length xs), 0)"]
    by (simp add: new_intArrayType_def write_at_whole)
  then show ?thesis using Inr by (simp add: pg_sasl_prepare_def size_pass_is_length)
qed

lemma decompose_terminal:
  "decompose tbl fuel code = Inr xs \<Longrightarrow> list_all (is_terminal tbl) xs"
  "decompose_codes tbl fuel cs = Inr ys \<Longrightarrow> list_all (is_terminal tbl) ys"
  by (induction tbl fuel code and tbl fuel cs arbitrary: xs and ys
      rule: decompose_decompose_codes.induct)
     (auto simp: is_terminal_def split: sum.splits if_splits)

lemma decompose_nonempty:
  "decompose tbl fuel code = Inr xs \<Longrightarrow> xs \<noteq> []"
  "decompose_codes tbl fuel cs = Inr ys \<Longrightarrow> (case cs of [] \<Rightarrow> 0 | c # _ \<Rightarrow> c) \<noteq> 0 \<Longrightarrow> ys \<noteq> []"
  by (induction tbl fuel code and tbl fuel cs arbitrary: xs and ys
      rule: decompose_decompose_codes.induct)
     (auto simp: codes0_def split: sum.splits if_splits)

lemma decompose_more_fuel:
  "decompose tbl fuel code = Inr xs \<Longrightarrow> decompose tbl (fuel + k) code = Inr xs"
  "decompose_codes tbl fuel cs = Inr ys \<Longrightarrow> decompose_codes tbl (fuel + k) cs = Inr ys"
  by (induction tbl fuel code and tbl fuel cs arbitrary: xs and ys
      rule: decompose_decompose_codes.induct)
     (auto split: sum.splits if_splits)

lemma decompose_fuel_mono:
  "decompose tbl fuel code = Inr xs \<Longrightarrow> fuel \<le> fuel' \<Longrightarrow> decompose tbl fuel' code = Inr xs"
  using decompose_more_fuel(1) [of tbl fuel code xs "fuel' - fuel"] by simp

lemma decompose_codes_exists:
  "\<forall>c \<in> set (takeWhile (\<lambda>c. c \<noteq> 0) cs). \<exists>fuel xs. decompose tbl fuel c = Inr xs \<Longrightarrow>
   \<exists>fuel ys. decompose_codes tbl fuel cs = Inr ys"
proof (induction cs)
  case Nil
  show ?case by simp
next
  case (Cons c cs)
  show ?case
  proof (cases "c = 0")
    case True
    then show ?thesis by simp
  next
    case False
    with Cons.prems obtain f1 xs where f1: "decompose tbl f1 c = Inr xs" by auto
    from False Cons.prems Cons.IH obtain f2 ys where f2: "decompose_codes tbl f2 cs = Inr ys"
      by auto
    have "decompose tbl (f1 + f2) c = Inr xs"
      using decompose_more_fuel(1) [OF f1] .
    moreover have "decompose_codes tbl (f1 + f2) cs = Inr ys"
      using decompose_more_fuel(2) [OF f2, of f1] by (simp add: add.commute)
    ultimately have "decompose_codes tbl (f1 + f2) (c # cs) = Inr (xs @ ys)"
      using False by simp
    then show ?thesis by blast
  qed
qed

lemma well_formed_decompose:
  "well_formed tbl code \<Longrightarrow> \<exists>fuel xs. decompose tbl fuel code = Inr xs"
proof (induction rule: well_formed.induct)
  case (terminal code entry)
  then have "decompose tbl (Suc 0) code = Inr [code]" by simp
  then show ?case by blast
next
  case (composite code entry)
  then have "\<exists>fuel ys. decompose_codes tbl fuel (codes entry) = Inr ys"
    by (intro decompose_codes_exists) simp
  then obtain fuel ys where "decompose_codes tbl fuel (codes entry) = Inr ys" by blast
  then have "decompose tbl (Suc fuel) code = Inr ys"
    using composite by simp
  then show ?case by blast
qed

lemma decompose_code_Inr_decompose:
  "decompose_code tbl fuel code st = Inr st' \<Longrightarrow> \<exists>xs. decompose tbl fuel code = Inr xs"
  "decompose_loop tbl fuel cs st = Inr st' \<Longrightarrow> \<exists>ys. decompose_codes tbl fuel cs = Inr ys"
proof (induction tbl fuel code st and tbl fuel cs st arbitrary: st' and st'
    rule: decompose_code_decompose_loop.induct)
  case (4 tbl fuel lcode rest st)
  show ?case
  proof (cases "lcode = 0")
    case True
    then show ?thesis by simp
  next
    case False
    with "4.prems" obtain st1 where
      st1: "decompose_code tbl fuel lcode st = Inr st1" and
      st2: "decompose_loop tbl fuel rest st1 = Inr st'"
      by (auto split: sum.splits)
    obtain xs where "decompose tbl fuel lcode = Inr xs"
      using "4.IH"(1) [OF False st1] by blast
    moreover obtain ys where "decompose_codes tbl fuel rest = Inr ys"
      using "4.IH"(2) [OF False st1 st2] by blast
    ultimately show ?thesis using False by simp
  qed
qed (auto split: sum.splits if_splits)

lemma well_formed_size:
  assumes "well_formed tbl code"
  shows "\<exists>fuel0 n. \<forall>fuel \<ge> fuel0. get_decomposed_size tbl fuel code = Inr n"
proof -
  from well_formed_decompose [OF assms] obtain fuel0 xs where
    xs: "decompose tbl fuel0 code = Inr xs" by blast
  have "get_decomposed_size tbl fuel code = Inr (length xs)" if "fuel0 \<le> fuel" for fuel
    using decompose_fuel_mono [OF xs that] by (simp add: size_is_length)
  then show ?thesis by blast
qed

lemma size_Inr_decompose:
  "get_decomposed_size tbl fuel code = Inr n \<Longrightarrow>
     \<exists>xs. decompose tbl fuel code = Inr xs \<and> length xs = n"
  by (auto simp: size_is_length split: sum.splits)

lemma size_pass_Inr_decompose:
  "size_pass tbl fuel input s = Inr n \<Longrightarrow>
     \<exists>xs. decompose_all tbl fuel input = Inr xs \<and> s + length xs = n"
  by (auto simp: size_pass_is_length split: sum.splits)

lemma sint_of_nat_small: "n < 2 ^ 31 \<Longrightarrow> sint (word_of_nat n :: 32 word) = int n"
proof -
  assume "n < 2 ^ 31"
  then have "signed_take_bit 31 (int n) = int n"
    by (intro signed_take_bit_int_eq_self) simp_all
  then show ?thesis by (simp add: signed_of_nat)
qed

lemma new_intArrayType_c_exact:
  assumes "overhead + 4 * num \<le> max_alloc" "max_alloc < 2 ^ 31"
  shows "new_intArrayType_c overhead max_alloc num = Inr (new_intArrayType num)"
proof -
  have "overhead + 4 * num < 2 ^ 31" using assms by simp
  then have "sint (word_of_nat (overhead + 4 * num) :: 32 word) = int (overhead + 4 * num)"
    by (rule sint_of_nat_small)
  then show ?thesis
    using assms(1) by (simp add: new_intArrayType_c_def new_intArrayType_def Let_def)
qed

lemma fill_pass_any_buffer:
  assumes "decompose_all tbl fuel input = Inr xs" "length buf = length xs"
  shows "fill_pass tbl fuel input (buf, 0) = Inr (xs, length xs)"
  using fill_pass_write_at [OF assms(1), of "(buf, 0)"] assms(2)
  by (simp add: write_at_def)

lemma fill_pass_short_buffer:
  assumes "decompose_all tbl fuel input = Inr xs" "length buf < length xs"
  shows "fill_pass tbl fuel input (buf, 0) = Inl BufferOverrun"
  using fill_pass_write_at [OF assms(1), of "(buf, 0)"] assms(2)
  by (simp add: write_at_def)

lemma size_pass_replicate:
  "get_decomposed_size tbl fuel code = Inr k \<Longrightarrow>
     size_pass tbl fuel (replicate m code) s = Inr (s + m * k)"
  by (induction m arbitrary: s) simp_all

lemma ligature_size: "get_decomposed_size ligature_table 2 0xEFB7BA = Inr 18"
  by code_simp

text \<open>
  C3. The fill pass writes as many elements as the count pass counted. For a code with a
  well-formed decomposition the count pass returns a size \<open>n\<close>, at every depth bound
  from some bound on. Whenever \<open>get_decomposed_size\<close> returns \<open>n\<close>, the decomposition
  \<open>xs\<close> of the code has \<open>n\<close> elements, and \<open>decompose_code\<close> at any cursor inside any
  array writes exactly \<open>xs\<close> at the cursor and moves the cursor by \<open>n\<close> when the
  elements fit, and overruns the array when they do not. In \<open>pg_sasl_prepare\<close>, when
  the first loop returns the sum \<open>size'\<close> and the byte count of the allocation is within
  the allocator's limit, the allocation has exactly \<open>size'\<close> elements, and the second
  loop, whatever an array of \<open>size'\<close> elements held, leaves in it the decomposition of
  the whole input with the cursor at \<open>size'\<close>: every element is written and no write
  is past the end. When the sum fits an \<open>int\<close> and the byte count, stored in an \<open>int\<close>,
  makes the allocation shorter than \<open>size'\<close> elements, the second loop writes past the
  end of the array.
\<close>

theorem fill_matches_count:
  "(well_formed tbl code \<longrightarrow>
      (\<exists>fuel0 n. \<forall>fuel \<ge> fuel0. get_decomposed_size tbl fuel code = Inr n))
   \<and> (get_decomposed_size tbl fuel code = Inr n \<longrightarrow>
      (\<exists>xs. decompose tbl fuel code = Inr xs \<and> length xs = n \<and>
         (\<forall>res cur. cur \<le> length res \<longrightarrow>
            decompose_code tbl fuel code (res, cur) =
              (if cur + n \<le> length res
               then Inr (take cur res @ xs @ drop (cur + n) res, cur + n)
               else Inl BufferOverrun))))
   \<and> (size_pass tbl fuel input 0 = Inr size' \<and> overhead + 4 * size' \<le> max_alloc \<and>
        max_alloc < 2 ^ 31 \<longrightarrow>
      (\<exists>xs. decompose_all tbl fuel input = Inr xs \<and> length xs = size' \<and>
         new_intArrayType_c overhead max_alloc size' = Inr (new_intArrayType size') \<and>
         (\<forall>buf. length buf = size' \<longrightarrow> fill_pass tbl fuel input (buf, 0) = Inr (xs, size')) \<and>
         decomposition_passes overhead max_alloc tbl fuel input = Inr (xs, size')))
   \<and> (size_pass tbl fuel input 0 = Inr size' \<and> size' < 2 ^ 31 \<and>
        new_intArrayType_c overhead max_alloc size' = Inr buf \<and> length buf < size' \<longrightarrow>
      decomposition_passes overhead max_alloc tbl fuel input = Inl BufferOverrun)"
proof (intro conjI)
  show "well_formed tbl code \<longrightarrow>
      (\<exists>fuel0 n. \<forall>fuel \<ge> fuel0. get_decomposed_size tbl fuel code = Inr n)"
    using well_formed_size by blast
next
  show "get_decomposed_size tbl fuel code = Inr n \<longrightarrow>
      (\<exists>xs. decompose tbl fuel code = Inr xs \<and> length xs = n \<and>
         (\<forall>res cur. cur \<le> length res \<longrightarrow>
            decompose_code tbl fuel code (res, cur) =
              (if cur + n \<le> length res
               then Inr (take cur res @ xs @ drop (cur + n) res, cur + n)
               else Inl BufferOverrun)))"
  proof
    assume "get_decomposed_size tbl fuel code = Inr n"
    then obtain xs where xs: "decompose tbl fuel code = Inr xs" "length xs = n"
      using size_Inr_decompose by blast
    have "decompose_code tbl fuel code (res, cur) =
              (if cur + n \<le> length res
               then Inr (take cur res @ xs @ drop (cur + n) res, cur + n)
               else Inl BufferOverrun)" if "cur \<le> length res" for res cur
      using decompose_code_write_at(1) [OF xs(1), of "(res, cur)"] that xs(2)
      by (simp add: write_at_def)
    then show "\<exists>xs. decompose tbl fuel code = Inr xs \<and> length xs = n \<and>
         (\<forall>res cur. cur \<le> length res \<longrightarrow>
            decompose_code tbl fuel code (res, cur) =
              (if cur + n \<le> length res
               then Inr (take cur res @ xs @ drop (cur + n) res, cur + n)
               else Inl BufferOverrun))"
      using xs by blast
  qed
next
  show "size_pass tbl fuel input 0 = Inr size' \<and> overhead + 4 * size' \<le> max_alloc \<and>
        max_alloc < 2 ^ 31 \<longrightarrow>
      (\<exists>xs. decompose_all tbl fuel input = Inr xs \<and> length xs = size' \<and>
         new_intArrayType_c overhead max_alloc size' = Inr (new_intArrayType size') \<and>
         (\<forall>buf. length buf = size' \<longrightarrow> fill_pass tbl fuel input (buf, 0) = Inr (xs, size')) \<and>
         decomposition_passes overhead max_alloc tbl fuel input = Inr (xs, size'))"
  proof
    assume a: "size_pass tbl fuel input 0 = Inr size' \<and> overhead + 4 * size' \<le> max_alloc \<and>
        max_alloc < 2 ^ 31"
    then obtain xs where xs: "decompose_all tbl fuel input = Inr xs" "length xs = size'"
      using size_pass_Inr_decompose by fastforce
    have al: "new_intArrayType_c overhead max_alloc size' = Inr (new_intArrayType size')"
      using a by (intro new_intArrayType_c_exact) simp_all
    have fill: "fill_pass tbl fuel input (buf, 0) = Inr (xs, size')" if "length buf = size'" for buf
      using fill_pass_any_buffer [OF xs(1), of buf] that xs(2) by simp
    have fit: "\<not> 2 ^ 31 \<le> size'" using a by simp
    have "decomposition_passes overhead max_alloc tbl fuel input = Inr (xs, size')"
      using a al fit fill [of "new_intArrayType size'"]
      by (simp add: decomposition_passes_def new_intArrayType_def)
    then show "\<exists>xs. decompose_all tbl fuel input = Inr xs \<and> length xs = size' \<and>
         new_intArrayType_c overhead max_alloc size' = Inr (new_intArrayType size') \<and>
         (\<forall>buf. length buf = size' \<longrightarrow> fill_pass tbl fuel input (buf, 0) = Inr (xs, size')) \<and>
         decomposition_passes overhead max_alloc tbl fuel input = Inr (xs, size')"
      using xs al fill by blast
  qed
next
  show "size_pass tbl fuel input 0 = Inr size' \<and> size' < 2 ^ 31 \<and>
        new_intArrayType_c overhead max_alloc size' = Inr buf \<and> length buf < size' \<longrightarrow>
      decomposition_passes overhead max_alloc tbl fuel input = Inl BufferOverrun"
  proof
    assume a: "size_pass tbl fuel input 0 = Inr size' \<and> size' < 2 ^ 31 \<and>
        new_intArrayType_c overhead max_alloc size' = Inr buf \<and> length buf < size'"
    then obtain xs where xs: "decompose_all tbl fuel input = Inr xs" "length xs = size'"
      using size_pass_Inr_decompose by fastforce
    have "fill_pass tbl fuel input (buf, 0) = Inl BufferOverrun"
      using fill_pass_short_buffer [OF xs(1), of buf] a xs(2) by simp
    then show "decomposition_passes overhead max_alloc tbl fuel input = Inl BufferOverrun"
      using a by (simp add: decomposition_passes_def)
  qed
qed

theorem fill_matches_count_witness:
  "well_formed example_table 0xE284AB
   \<and> get_decomposed_size example_table 3 0xE284AB = Inr 2
   \<and> decompose example_table 3 0xE284AB = Inr [0x41, 0xCC8A]
   \<and> decompose_code example_table 3 0xE284AB ([7, 7, 7, 7], 1) = Inr ([7, 0x41, 0xCC8A, 7], 3)
   \<and> decompose_code example_table 3 0xE284AB ([7, 7, 7, 7], 3) = Inl BufferOverrun
   \<and> size_pass example_table 3 [0xE284AB, 0xCC81] 0 = Inr 3
   \<and> fill_pass example_table 3 [0xE284AB, 0xCC81] ([7, 7, 7], 0) = Inr ([0x41, 0xCC8A, 0xCC81], 3)
   \<and> decomposition_passes 24 0x3FFFFFFF example_table 3 [0xE284AB, 0xCC81] =
        Inr ([0x41, 0xCC8A, 0xCC81], 3)
   \<and> size_pass ligature_table 2 (replicate 59652324 0xEFB7BA) 0 = Inr 1073741832
   \<and> new_intArrayType_c 24 0x3FFFFFFF 1073741832 = Inr (replicate 8 0)
   \<and> decomposition_passes 24 0x3FFFFFFF ligature_table 2 (replicate 59652324 0xEFB7BA) =
        Inl BufferOverrun"
proof -
  have g: "get_decomposed_size example_table 3 0xE284AB = Inr 2" by code_simp
  have x: "decompose example_table 3 0xE284AB = Inr [0x41, 0xCC8A]" by code_simp
  have s: "size_pass example_table 3 [0xE284AB, 0xCC81] 0 = Inr 3" by code_simp
  have a: "decompose_all example_table 3 [0xE284AB, 0xCC81] = Inr [0x41, 0xCC8A, 0xCC81]"
    by code_simp
  have ls: "size_pass ligature_table 2 (replicate 59652324 0xEFB7BA) 0 = Inr 1073741832"
    using size_pass_replicate [OF ligature_size, of 59652324 0] by simp
  have la: "new_intArrayType_c 24 0x3FFFFFFF 1073741832 = Inr (replicate 8 0)"
    by (simp add: new_intArrayType_c_def)
  note small = fill_matches_count [where tbl = example_table and code = "0xE284AB" and fuel = 3
      and n = 2 and input = "[0xE284AB, 0xCC81]" and size' = 3 and overhead = 24
      and max_alloc = "0x3FFFFFFF" and buf = "[]"]
  note large = fill_matches_count [where tbl = ligature_table and code = "0xEFB7BA" and fuel = 2
      and n = 18 and input = "replicate 59652324 0xEFB7BA" and size' = 1073741832
      and overhead = 24 and max_alloc = "0x3FFFFFFF" and buf = "replicate 8 0"]
  have p1: "decompose_code example_table 3 0xE284AB ([7, 7, 7, 7], 1) = Inr ([7, 0x41, 0xCC8A, 7], 3)"
    and p2: "decompose_code example_table 3 0xE284AB ([7, 7, 7, 7], 3) = Inl BufferOverrun"
    using small g x by simp_all
  have p3: "fill_pass example_table 3 [0xE284AB, 0xCC81] ([7, 7, 7], 0) = Inr ([0x41, 0xCC8A, 0xCC81], 3)"
    and p4: "decomposition_passes 24 0x3FFFFFFF example_table 3 [0xE284AB, 0xCC81] =
        Inr ([0x41, 0xCC8A, 0xCC81], 3)"
    using small s a by simp_all
  have p5: "decomposition_passes 24 0x3FFFFFFF ligature_table 2 (replicate 59652324 0xEFB7BA) =
        Inl BufferOverrun"
    using large ls la by simp
  show ?thesis
    using example_well_formed(4) g x s ls la p1 p2 p3 p4 p5 by simp
qed

text \<open>
  C8. Every element that \<open>decompose_code\<close> writes is terminal: it has a row whose first
  decomposition code is 0. When the call returns from a cursor inside the array, it has
  written the elements from the old cursor to the new one, at least one, and each is
  terminal. For a code with a well-formed decomposition there is a depth bound at which
  the call returns, into an array of the right size, a non-empty sequence of terminal
  codes.
\<close>

theorem decompose_code_terminal_only:
  "(decompose_code tbl fuel code (res, cur) = Inr (res', cur') \<and> cur \<le> length res \<longrightarrow>
      cur < cur' \<and> cur' \<le> length res' \<and>
      list_all (is_terminal tbl) (take (cur' - cur) (drop cur res')))
   \<and> (well_formed tbl code \<longrightarrow>
      (\<exists>fuel xs. xs \<noteq> [] \<and> list_all (is_terminal tbl) xs \<and>
         decompose_code tbl fuel code (new_intArrayType (length xs), 0) = Inr (xs, length xs)))"
proof (rule conjI; rule impI)
  assume a: "decompose_code tbl fuel code (res, cur) = Inr (res', cur') \<and> cur \<le> length res"
  then obtain xs where xs: "decompose tbl fuel code = Inr xs"
    using decompose_code_Inr_decompose(1) by blast
  have "decompose_code tbl fuel code (res, cur) = write_at xs (res, cur)"
    using a by (intro decompose_code_write_at(1) [OF xs]) simp
  then have w: "write_at xs (res, cur) = Inr (res', cur')" using a by simp
  then have r: "res' = take cur res @ xs @ drop (cur + length xs) res" "cur' = cur + length xs"
    "cur + length xs \<le> length res"
    by (auto simp: write_at_def split: if_splits)
  have "take (cur' - cur) (drop cur res') = xs"
    using r a by simp
  then show "cur < cur' \<and> cur' \<le> length res' \<and>
      list_all (is_terminal tbl) (take (cur' - cur) (drop cur res'))"
    using decompose_terminal(1) [OF xs] decompose_nonempty(1) [OF xs] r by simp
next
  assume "well_formed tbl code"
  then obtain fuel xs where xs: "decompose tbl fuel code = Inr xs"
    using well_formed_decompose by blast
  have "decompose_code tbl fuel code (new_intArrayType (length xs), 0) = Inr (xs, length xs)"
    using decompose_code_write_at(1) [OF xs, of "(new_intArrayType (length xs), 0)"]
    by (simp add: new_intArrayType_def write_at_whole)
  then show "\<exists>fuel xs. xs \<noteq> [] \<and> list_all (is_terminal tbl) xs \<and>
         decompose_code tbl fuel code (new_intArrayType (length xs), 0) = Inr (xs, length xs)"
    using decompose_terminal(1) [OF xs] decompose_nonempty(1) [OF xs] by blast
qed

theorem decompose_code_terminal_only_witness:
  "decompose_code example_table 3 0xE284AB ([7, 7, 7, 7], 1) = Inr ([7, 0x41, 0xCC8A, 7], 3)
   \<and> is_terminal example_table 0x41 \<and> is_terminal example_table 0xCC8A
   \<and> \<not> is_terminal example_table 0xE284AB
   \<and> well_formed example_table 0xE284AB
   \<and> (\<exists>fuel xs. xs \<noteq> [] \<and> list_all (is_terminal example_table) xs \<and>
         decompose_code example_table fuel 0xE284AB (new_intArrayType (length xs), 0) = Inr (xs, length xs))"
proof -
  have d: "decompose_code example_table 3 0xE284AB ([7, 7, 7, 7], 1) = Inr ([7, 0x41, 0xCC8A, 7], 3)"
    by code_simp
  have n: "\<not> is_terminal example_table 0xE284AB"
    by (simp add: is_terminal_def example_entries codes0_def)
  from decompose_code_terminal_only [of example_table 3 "0xE284AB" "[7, 7, 7, 7]" 1 "[7, 0x41, 0xCC8A, 7]" 3]
  show ?thesis using d n example_well_formed(4) by simp
qed

section \<open>The reordering pass\<close>




lemma reorder_iter_Inr_cases:
  assumes "reorder_iter tbl (arr, count) = Inr (arr', count')"
  obtains (keep) "has_entry tbl (arr ! (count - 1))" "has_entry tbl (arr ! count)"
      "no_exchange tbl (arr ! (count - 1)) (arr ! count)" "arr' = arr" "count' = count + 1"
    | (exchange) "has_entry tbl (arr ! (count - 1))" "has_entry tbl (arr ! count)"
      "\<not> is_starter tbl (arr ! (count - 1))" "\<not> is_starter tbl (arr ! count)"
      "class_of tbl (arr ! count) < class_of tbl (arr ! (count - 1))"
      "arr' = arr[count - 1 := arr ! count, count := arr ! (count - 1)]"
      "count' = (if count > 1 then count - 1 else count + 1)"
  using assms
  by (auto simp: reorder_iter_def class_of_def has_entry_def is_starter_def no_exchange_def Let_def
      unat_eq_0 word_le_nat_alt word_less_nat_alt split: sum.splits if_splits)

lemma has_entryE:
  assumes "has_entry tbl code"
  obtains entry where "get_code_entry tbl code = Inr entry"
  using assms by (auto simp: has_entry_def split: sum.splits)


lemma reorder_iter_succeeds:
  assumes "has_entry tbl (arr ! (count - 1))" "has_entry tbl (arr ! count)"
  shows "\<exists>st'. reorder_iter tbl (arr, count) = Inr st'"
proof -
  from assms(1) obtain prevEntry where p: "get_code_entry tbl (arr ! (count - 1)) = Inr prevEntry"
    by (rule has_entryE)
  from assms(2) obtain nextEntry where n: "get_code_entry tbl (arr ! count) = Inr nextEntry"
    by (rule has_entryE)
  show ?thesis
    unfolding reorder_iter_def prod.case Let_def p n sum.case by auto
qed

lemma exchange_set:
  assumes "count < length arr"
  shows "set (arr[count - 1 := arr ! count, count := arr ! (count - 1)]) = set arr"
proof (cases "1 \<le> count")
  case True
  show ?thesis
    using arg_cong [OF swap_conv_append(1) [OF True assms], of set]
      arg_cong [OF swap_conv_append(2) [OF True assms], of set]
    by auto
next
  case False
  then have "count = 0" by simp
  then show ?thesis by simp
qed

lemma reorder_loop_set:
  "reorder_loop tbl arr count = Inr out \<Longrightarrow> set out = set arr \<and> length out = length arr"
proof (induction tbl arr count rule: reorder_loop.induct)
  case (1 tbl arr count)
  show ?case
  proof (cases "count < length arr")
    case False
    then show ?thesis using "1.prems" by (simp add: reorder_loop.simps [of tbl arr count])
  next
    case True
    with "1.prems" obtain arr' count' where
      it: "reorder_iter tbl (arr, count) = Inr (arr', count')" and
      lp: "reorder_loop tbl arr' count' = Inr out"
      by (auto simp: reorder_loop.simps [of tbl arr count] split: sum.splits)
    have ih: "set out = set arr' \<and> length out = length arr'"
      using "1.IH" [OF True it refl lp] .
    from it show ?thesis
      by (cases rule: reorder_iter_Inr_cases) (use ih exchange_set [OF True] in auto)
  qed
qed


lemma reorder_loop_succeeds:
  "\<forall>x \<in> set arr. has_entry tbl x \<Longrightarrow> \<exists>out. reorder_loop tbl arr count = Inr out"
proof (induction tbl arr count rule: reorder_loop.induct)
  case (1 tbl arr count)
  show ?case
  proof (cases "count < length arr")
    case False
    then show ?thesis by (simp add: reorder_loop.simps [of tbl arr count])
  next
    case True
    then have "arr ! (count - 1) \<in> set arr" "arr ! count \<in> set arr" by simp_all
    then have "has_entry tbl (arr ! (count - 1))" "has_entry tbl (arr ! count)"
      using "1.prems" by blast+
    then obtain arr' count' where it: "reorder_iter tbl (arr, count) = Inr (arr', count')"
      using reorder_iter_succeeds by fastforce
    from it have "set arr' = set arr"
      by (cases rule: reorder_iter_Inr_cases) (use exchange_set [OF True] in auto)
    then have "\<exists>out. reorder_loop tbl arr' count' = Inr out"
      using "1.IH" [OF True it refl] "1.prems" by simp
    then show ?thesis using True it by (simp add: reorder_loop.simps [of tbl arr count])
  qed
qed


lemma exchange_filter:
  assumes "count < length arr" "\<not> P (arr ! (count - 1))" "\<not> P (arr ! count)"
  shows "filter P (arr[count - 1 := arr ! count, count := arr ! (count - 1)]) = filter P arr"
proof (cases "1 \<le> count")
  case True
  show ?thesis
    using arg_cong [OF swap_conv_append(1) [OF True assms(1)], of "filter P"]
      arg_cong [OF swap_conv_append(2) [OF True assms(1)], of "filter P"] assms(2,3)
    by simp
next
  case False
  then have "count = 0" by simp
  then show ?thesis by simp
qed

lemma reorder_loop_starters:
  "reorder_loop tbl arr count = Inr out \<Longrightarrow>
     filter (is_starter tbl) out = filter (is_starter tbl) arr \<and>
     (\<forall>i < length arr. is_starter tbl (arr ! i) \<longrightarrow> out ! i = arr ! i)"
proof (induction tbl arr count rule: reorder_loop.induct)
  case (1 tbl arr count)
  show ?case
  proof (cases "count < length arr")
    case False
    then show ?thesis using "1.prems" by (simp add: reorder_loop.simps [of tbl arr count])
  next
    case True
    with "1.prems" obtain arr' count' where
      it: "reorder_iter tbl (arr, count) = Inr (arr', count')" and
      lp: "reorder_loop tbl arr' count' = Inr out"
      by (auto simp: reorder_loop.simps [of tbl arr count] split: sum.splits)
    note ih = "1.IH" [OF True it refl lp]
    from it show ?thesis
    proof (cases rule: reorder_iter_Inr_cases)
      case keep
      then show ?thesis using ih by simp
    next
      case exchange
      have f: "filter (is_starter tbl) arr' = filter (is_starter tbl) arr"
        unfolding exchange(6) using True exchange(3,4) by (rule exchange_filter)
      have "out ! i = arr ! i" if i: "i < length arr" "is_starter tbl (arr ! i)" for i
      proof -
        have "i \<noteq> count - 1" "i \<noteq> count" using i(2) exchange(3,4) by auto
        then have "arr' ! i = arr ! i" unfolding exchange(6) by simp
        moreover have "length arr' = length arr" unfolding exchange(6) by simp
        ultimately show ?thesis using ih i by simp
      qed
      then show ?thesis using ih f by simp
    qed
  qed
qed


lemma no_infinite_descent:
  fixes m :: "'s \<Rightarrow> nat \<times> nat"
  assumes "\<forall>i. (m (s (Suc i)), m (s i)) \<in> less_than <*lex*> less_than"
  shows False
proof -
  have "wf (inv_image (less_than <*lex*> less_than) m)"
    by (intro wf_inv_image wf_lex_prod wf_less_than)
  moreover have "\<forall>i. (s (Suc i), s i) \<in> inv_image (less_than <*lex*> less_than) m"
    using assms by (simp add: inv_image_def)
  ultimately show False
    unfolding wf_iff_no_infinite_down_chain by blast
qed

lemma exchange_inversions:
  assumes "count < length arr" "class_of tbl (arr ! count) < class_of tbl (arr ! (count - 1))"
  shows "inversions (map (class_of tbl) arr) =
         Suc (inversions (map (class_of tbl) (arr[count - 1 := arr ! count, count := arr ! (count - 1)])))"
proof -
  have c1: "1 \<le> count" using assms(2) by (cases count) auto
  let ?xs = "take (count - 1) arr" and ?ys = "drop (Suc count) arr"
  have "map (class_of tbl) arr =
        map (class_of tbl) ?xs @ class_of tbl (arr ! (count - 1)) # class_of tbl (arr ! count) #
          map (class_of tbl) ?ys"
    using arg_cong [OF swap_conv_append(1) [OF c1 assms(1)], of "map (class_of tbl)"] by simp
  moreover have "map (class_of tbl) (arr[count - 1 := arr ! count, count := arr ! (count - 1)]) =
        map (class_of tbl) ?xs @ class_of tbl (arr ! count) # class_of tbl (arr ! (count - 1)) #
          map (class_of tbl) ?ys"
    using arg_cong [OF swap_conv_append(2) [OF c1 assms(1)], of "map (class_of tbl)"] by simp
  ultimately show ?thesis using inversions_swap [OF assms(2)] by simp
qed

text \<open>
  C5. The reordering loop ends on every array and table. There is no endless sequence of
  states, each inside the loop (\<open>count\<close> below the length) and each the result of one
  iteration on the one before. An iteration that changes the array, i.e. one that
  exchanges, lowers the number of inverted pairs of classes by exactly one (the other
  iterations move \<open>count\<close> forward by one).
\<close>

theorem reorder_loop_terminates:
  "(\<nexists>s. \<forall>i. snd (s i) < length (fst (s i)) \<and> reorder_iter tbl (s i) = Inr (s (Suc i)))
   \<and> (count < length arr \<and> reorder_iter tbl (arr, count) = Inr (arr', count') \<and> arr' \<noteq> arr \<longrightarrow>
        inversions (map (class_of tbl) arr) = Suc (inversions (map (class_of tbl) arr')))"
proof (rule conjI)
  show "\<nexists>s. \<forall>i. snd (s i) < length (fst (s i)) \<and> reorder_iter tbl (s i) = Inr (s (Suc i))"
  proof
    assume "\<exists>s. \<forall>i. snd (s i) < length (fst (s i)) \<and> reorder_iter tbl (s i) = Inr (s (Suc i))"
    then obtain s where s: "\<And>i. snd (s i) < length (fst (s i))"
      "\<And>i. reorder_iter tbl (s i) = Inr (s (Suc i))" by blast
    define m where "m = (\<lambda>st :: uint32 list \<times> nat.
      (inversions (map (class_of tbl) (fst st)), length (fst st) - snd st))"
    have "(m (s (Suc i)), m (s i)) \<in> less_than <*lex*> less_than" for i
      using reorder_iter_measure [of tbl "fst (s i)" "snd (s i)" "fst (s (Suc i))" "snd (s (Suc i))"]
        s(1) [of i] s(2) [of i]
      by (auto simp: m_def)
    then show False using no_infinite_descent [of m s] by blast
  qed
next
  show "count < length arr \<and> reorder_iter tbl (arr, count) = Inr (arr', count') \<and> arr' \<noteq> arr \<longrightarrow>
        inversions (map (class_of tbl) arr) = Suc (inversions (map (class_of tbl) arr'))"
  proof
    assume a: "count < length arr \<and> reorder_iter tbl (arr, count) = Inr (arr', count') \<and> arr' \<noteq> arr"
    then have "reorder_iter tbl (arr, count) = Inr (arr', count')" by simp
    then show "inversions (map (class_of tbl) arr) = Suc (inversions (map (class_of tbl) arr'))"
    proof (cases rule: reorder_iter_Inr_cases)
      case keep
      then show ?thesis using a by simp
    next
      case exchange
      show ?thesis unfolding exchange(6) using a exchange(5) by (intro exchange_inversions) simp_all
    qed
  qed
qed

lemma example_classes:
  "class_of example_table 0x41 = 0"
  "class_of example_table 0xCC81 = 230"
  "class_of example_table 0xCC8A = 230"
  "class_of example_table 0xCCA3 = 220"
  by (simp_all add: class_of_def example_entries)

theorem reorder_loop_terminates_witness:
  "reorder_iter example_table ([0x41, 0xCC81, 0xCCA3], 2) = Inr ([0x41, 0xCCA3, 0xCC81], 1)
   \<and> inversions (map (class_of example_table) [0x41, 0xCC81, 0xCCA3]) = 1
   \<and> inversions (map (class_of example_table) [0x41, 0xCCA3, 0xCC81]) = 0
   \<and> reorder_loop example_table [0x41, 0xCC81, 0xCCA3] 1 = Inr [0x41, 0xCCA3, 0xCC81]
   \<and> (\<nexists>s. \<forall>i. snd (s i) < length (fst (s i)) \<and> reorder_iter example_table (s i) = Inr (s (Suc i)))"
proof -
  have it: "reorder_iter example_table ([0x41, 0xCC81, 0xCCA3], 2) = Inr ([0x41, 0xCCA3, 0xCC81], 1)"
    by (simp add: reorder_iter_def example_entries)
  have lp: "reorder_loop example_table [0x41, 0xCC81, 0xCCA3] 1 = Inr [0x41, 0xCCA3, 0xCC81]"
    by code_simp
  have i0: "inversions (map (class_of example_table) [0x41, 0xCCA3, 0xCC81]) = 0"
    by (simp add: example_classes)
  from reorder_loop_terminates [of example_table 2 "[0x41, 0xCC81, 0xCCA3]" "[0x41, 0xCCA3, 0xCC81]" 1]
  show ?thesis using it lp i0 by simp
qed

text \<open>
  C7. Starters do not move in the reordering pass. When the loop, started at
  \<open>count = 1\<close> as \<open>pg_sasl_prepare\<close> starts it, returns \<open>out\<close> for \<open>arr\<close>, the
  starters occur in \<open>out\<close> in the same order as in \<open>arr\<close>; moreover every position
  that holds a starter in \<open>arr\<close> holds the same code in \<open>out\<close>. The loop does return
  when every code of the array has an entry.
\<close>

theorem starters_keep_order:
  "(reorder_loop tbl arr 1 = Inr out \<longrightarrow>
      filter (is_starter tbl) out = filter (is_starter tbl) arr \<and>
      length out = length arr \<and>
      (\<forall>i. i < length arr \<and> is_starter tbl (arr ! i) \<longrightarrow> out ! i = arr ! i))
   \<and> (list_all (has_entry tbl) arr \<longrightarrow> (\<exists>out. reorder_loop tbl arr 1 = Inr out))"
proof (rule conjI; rule impI)
  assume a: "reorder_loop tbl arr 1 = Inr out"
  show "filter (is_starter tbl) out = filter (is_starter tbl) arr \<and>
      length out = length arr \<and>
      (\<forall>i. i < length arr \<and> is_starter tbl (arr ! i) \<longrightarrow> out ! i = arr ! i)"
    using reorder_loop_starters [OF a] reorder_loop_set [OF a] by simp
next
  assume "list_all (has_entry tbl) arr"
  then show "\<exists>out. reorder_loop tbl arr 1 = Inr out"
    by (intro reorder_loop_succeeds) (simp add: list_all_iff)
qed

theorem starters_keep_order_witness:
  "reorder_loop example_table [0x41, 0xCC81, 0xCCA3, 0xC385, 0xCC8A, 0xCCA3] 1 =
     Inr [0x41, 0xCCA3, 0xCC81, 0xC385, 0xCCA3, 0xCC8A]
   \<and> filter (is_starter example_table) [0x41, 0xCC81, 0xCCA3, 0xC385, 0xCC8A, 0xCCA3] = [0x41, 0xC385]
   \<and> filter (is_starter example_table) [0x41, 0xCCA3, 0xCC81, 0xC385, 0xCCA3, 0xCC8A] = [0x41, 0xC385]
   \<and> list_all (has_entry example_table) [0x41, 0xCC81, 0xCCA3, 0xC385, 0xCC8A, 0xCCA3]"
proof -
  have lp: "reorder_loop example_table [0x41, 0xCC81, 0xCCA3, 0xC385, 0xCC8A, 0xCCA3] 1 =
     Inr [0x41, 0xCCA3, 0xCC81, 0xC385, 0xCCA3, 0xCC8A]"
    by code_simp
  have f: "filter (is_starter example_table) [0x41, 0xCC81, 0xCCA3, 0xC385, 0xCC8A, 0xCCA3] = [0x41, 0xC385]"
    by (simp add: is_starter_def example_entries)
  have h: "list_all (has_entry example_table) [0x41, 0xCC81, 0xCCA3, 0xC385, 0xCC8A, 0xCCA3]"
    by (simp add: has_entry_def example_entries)
  from starters_keep_order [of example_table "[0x41, 0xCC81, 0xCCA3, 0xC385, 0xCC8A, 0xCCA3]"
      "[0x41, 0xCCA3, 0xCC81, 0xC385, 0xCCA3, 0xCC8A]"]
  show ?thesis using lp f h by simp
qed
















lemma no_entry_iff: "(\<not> has_entry tbl code) = (get_code_entry tbl code = Inl NoTableEntry)"
  by (simp add: has_entry_def get_code_entry_def split: option.splits)

lemma decompose_has_entry: "decompose tbl fuel code = Inr xs \<Longrightarrow> has_entry tbl code"
  by (cases fuel) (auto simp: has_entry_def split: sum.splits)

lemma decompose_all_has_entry:
  "decompose_all tbl fuel input = Inr xs \<Longrightarrow> code \<in> set input \<Longrightarrow> has_entry tbl code"
proof (induction input arbitrary: xs)
  case Nil
  then show ?case by simp
next
  case (Cons c input)
  from Cons.prems(1) obtain ys zs where
    ys: "decompose tbl fuel c = Inr ys" and zs: "decompose_all tbl fuel input = Inr zs"
    by (auto split: sum.splits)
  show ?case
    using decompose_has_entry [OF ys] Cons.IH [OF zs] Cons.prems(2) by auto
qed

text \<open>
  C6. A code without a row makes \<open>pg_sasl_prepare\<close> end in the failed assertion of
  \<open>get_code_entry\<close>, not in a result. When the first code of the input has no row the
  call ends with \<open>NoTableEntry\<close>; when any code of the input has no row the call
  returns no array.
\<close>

theorem lookup_miss_faults:
  "(get_code_entry tbl code = Inl NoTableEntry \<longrightarrow>
      pg_sasl_prepare tbl (Suc fuel) (code # rest) = Inl NoTableEntry)
   \<and> (code \<in> set input \<and> get_code_entry tbl code = Inl NoTableEntry \<longrightarrow>
      (\<exists>e. pg_sasl_prepare tbl fuel input = Inl e))"
proof (rule conjI; rule impI)
  assume "get_code_entry tbl code = Inl NoTableEntry"
  then show "pg_sasl_prepare tbl (Suc fuel) (code # rest) = Inl NoTableEntry"
    by (simp add: pg_sasl_prepare_def)
next
  assume a: "code \<in> set input \<and> get_code_entry tbl code = Inl NoTableEntry"
  then have "\<not> has_entry tbl code" by (simp add: no_entry_iff)
  then have "\<nexists>xs. decompose_all tbl fuel input = Inr xs"
    using decompose_all_has_entry a by blast
  then obtain e where "decompose_all tbl fuel input = Inl e"
    by (cases "decompose_all tbl fuel input") auto
  then show "\<exists>e. pg_sasl_prepare tbl fuel input = Inl e"
    by (simp add: pg_sasl_prepare_eq)
qed

theorem lookup_miss_faults_witness:
  "get_code_entry example_table 0xFFFFFFFF = Inl NoTableEntry
   \<and> pg_sasl_prepare example_table (Suc 2) [0xFFFFFFFF] = Inl NoTableEntry
   \<and> (\<exists>e. pg_sasl_prepare example_table 2 [0x41, 0xFFFFFFFF] = Inl e)"
  using lookup_miss_faults [of example_table "0xFFFFFFFF" 2 "[]" "[0x41, 0xFFFFFFFF]"]
    example_entries(7)
  by simp

section \<open>utf8_to_array\<close>



lemma deref_in_range: "k < length s \<Longrightarrow> deref beyond s k = s ! k"
  by (simp add: deref_def)








































end
